theory Spec2Isabelle
  imports Complex_Main "HOL-Library.AList"
begin

section \<open>The cuts catalog\<close>

text \<open>
  The catalog of \<^verbatim>\<open>main_cpsat.py\<close> is the JSON object of the cut enumerator:
  \<^verbatim>\<open>{"nodes": [{"name": str, "cuts": [cut, ...]}, ...], "outputs": [...], "inputs": [...]}\<close>.
  A cut is a bare list of leaf names or a dict with the key \<^verbatim>\<open>leaves\<close> and the
  cost keys \<^verbatim>\<open>inv_cost\<close>, \<^verbatim>\<open>area_cost\<close>, \<^verbatim>\<open>depth_cost\<close>, each of which may
  be absent. Every key the code reads with \<^verbatim>\<open>.get(key, default)\<close> is an \<open>option\<close>
  field here; the keys it subscripts (\<^verbatim>\<open>nd["name"]\<close>, \<^verbatim>\<open>cut_obj["leaves"]\<close>) are
  plain fields.

  The type \<open>'c\<close> is the type of the JSON numbers in the cost fields. The loader never
  computes with a cost, so it is modelled for every numeric type; the depth bounder, the
  model builder and the driver are modelled on \<open>int\<close> costs.
\<close>

record 'c cut =
  leaves :: "string list"
  inv_cost :: "'c option"
  area_cost :: "'c option"
  depth_cost :: "'c option"

datatype 'c raw_cut = BareCut "string list" | DictCut "'c cut"

record 'c raw_node =
  raw_name :: string
  raw_cuts :: "'c raw_cut list option"

record 'c raw_catalog =
  raw_nodes :: "'c raw_node list option"
  raw_outputs :: "string list option"
  raw_inputs :: "string list option"

record 'c node =
  name :: string
  cuts :: "'c cut list"

record 'c catalog =
  nodes :: "'c node list"
  outputs :: "string list option"
  inputs :: "string list option"


section \<open>Catalog loader\<close>




text \<open>
  \<^verbatim>\<open>_normalize_cuts_data\<close>: a dict cut is appended as it is; a bare list becomes a
  dict with the default costs \<open>0\<close>, \<open>len(cut)\<close>, \<open>1\<close>.
\<close>

definition normalize_cut :: "'c::semiring_1 raw_cut \<Rightarrow> 'c cut" where
  "normalize_cut c =
     (case c of
        DictCut d \<Rightarrow> d
      | BareCut ls \<Rightarrow>
          \<lparr>leaves = ls, inv_cost = Some 0, area_cost = Some (of_nat (length ls)),
           depth_cost = Some 1\<rparr>)"

definition normalize_node :: "'c::semiring_1 raw_node \<Rightarrow> 'c node" where
  "normalize_node nd =
     \<lparr>name = raw_name nd,
      cuts = map normalize_cut (case raw_cuts nd of None \<Rightarrow> [] | Some cs \<Rightarrow> cs)\<rparr>"

definition normalize_cuts_data :: "'c::semiring_1 raw_catalog \<Rightarrow> 'c catalog" where
  "normalize_cuts_data data =
     \<lparr>nodes = map normalize_node (case raw_nodes data of None \<Rightarrow> [] | Some ns \<Rightarrow> ns),
      outputs = raw_outputs data,
      inputs = (case raw_inputs data of None \<Rightarrow> Some [] | Some i \<Rightarrow> Some i)\<rparr>"


section \<open>Depth bounder\<close>

text \<open>
  A Python dict is an association list: \<open>AList.update\<close> overwrites the value of a key
  where it stands and appends a new key, as an assignment to a dict does, and \<open>map_of\<close>
  reads it. \<^verbatim>\<open>node_map = {nd["name"]: nd for nd in nodes}\<close>:
\<close>

definition node_map :: "'c node list \<Rightarrow> (string \<times> 'c node) list" where
  "node_map ns = fold (\<lambda>nd d. AList.update (name nd) nd d) ns []"

text \<open>\<^verbatim>\<open>len(nodes) or 1\<close>\<close>

definition len_or_1 :: "'a list \<Rightarrow> int" where
  "len_or_1 xs = (if length xs = 0 then 1 else int (length xs))"

text \<open>\<^verbatim>\<open>int(cut.get("depth_cost", 1) or 1)\<close>: an absent cost and the cost \<open>0\<close> count \<open>1\<close>.\<close>

definition depth_step :: "int cut \<Rightarrow> int" where
  "depth_step c = (case depth_cost c of None \<Rightarrow> 1 | Some k \<Rightarrow> if k = 0 then 1 else k)"










section \<open>CP model\<close>

text \<open>
  The part of OR-tools' \<^verbatim>\<open>CpModel\<close> the builder uses. A variable is the index of its
  creation; \<open>domains\<close> holds the bounds of every variable in creation order. Linear
  expressions and constraints are the terms the Python operators build; \<open>lin_value\<close> and
  \<open>holds\<close> give them the meaning CP-SAT gives them under an assignment of integers to
  the variables.
\<close>

datatype lin =
  LVar nat | LConst int | LAdd lin lin | LSub lin lin | LMul int lin | LSum "lin list"

datatype constr = CEq lin lin | CLe lin lin | CGe lin lin | CImp nat nat

record cp_model =
  domains :: "(int \<times> int) list"
  constraints :: "constr list"
  objective :: "lin option"

fun lin_value :: "(nat \<Rightarrow> int) \<Rightarrow> lin \<Rightarrow> int" where
  "lin_value a (LVar v) = a v"
| "lin_value a (LConst c) = c"
| "lin_value a (LAdd x y) = lin_value a x + lin_value a y"
| "lin_value a (LSub x y) = lin_value a x - lin_value a y"
| "lin_value a (LMul k x) = k * lin_value a x"
| "lin_value a (LSum xs) = sum_list (map (lin_value a) xs)"

fun holds :: "(nat \<Rightarrow> int) \<Rightarrow> constr \<Rightarrow> bool" where
  "holds a (CEq x y) = (lin_value a x = lin_value a y)"
| "holds a (CLe x y) = (lin_value a x \<le> lin_value a y)"
| "holds a (CGe x y) = (lin_value a x \<ge> lin_value a y)"
| "holds a (CImp b c) = (a b = 1 \<longrightarrow> a c = 1)"

text \<open>An assignment is a solution of a model: every variable in its domain, every constraint true.\<close>

definition in_domains :: "(int \<times> int) list \<Rightarrow> (nat \<Rightarrow> int) \<Rightarrow> bool" where
  "in_domains ds a = list_all (\<lambda>(i, (lo, hi)). lo \<le> a i \<and> a i \<le> hi) (enumerate 0 ds)"

definition feasible :: "cp_model \<Rightarrow> (nat \<Rightarrow> int) \<Rightarrow> bool" where
  "feasible m a \<longleftrightarrow> in_domains (domains m) a \<and> list_all (holds a) (constraints m)"

definition CpModel :: cp_model where
  "CpModel = \<lparr>domains = [], constraints = [], objective = None\<rparr>"

definition NewIntVar :: "int \<Rightarrow> int \<Rightarrow> cp_model \<Rightarrow> nat \<times> cp_model" where
  "NewIntVar lo hi m = (length (domains m), m\<lparr>domains := domains m @ [(lo, hi)]\<rparr>)"

definition NewBoolVar :: "cp_model \<Rightarrow> nat \<times> cp_model" where
  "NewBoolVar m = NewIntVar 0 1 m"

definition NewConstant :: "int \<Rightarrow> cp_model \<Rightarrow> nat \<times> cp_model" where
  "NewConstant c m = NewIntVar c c m"

definition Add :: "constr \<Rightarrow> cp_model \<Rightarrow> cp_model" where
  "Add c m = m\<lparr>constraints := constraints m @ [c]\<rparr>"


text \<open>A loop whose body is one \<^verbatim>\<open>model.Add\<close>: the constraints are added in order.\<close>

definition add_all :: "constr list \<Rightarrow> cp_model \<Rightarrow> cp_model" where
  "add_all cs m = fold Add cs m"

text \<open>
  The subscript \<^verbatim>\<open>d[k]\<close>. Every subscript of \<^verbatim>\<open>build_model\<close> is on a key the dict
  holds: it is guarded by a membership test, or the key is the name of a node and the
  dict was filled from the nodes (lemmas \<open>new_node_vars_keys\<close>, \<open>new_cut_vars_keys\<close>).
\<close>

definition dict_get :: "('k \<times> 'v) list \<Rightarrow> 'k \<Rightarrow> 'v" where
  "dict_get d k = the (map_of d k)"

definition dict_has :: "('k \<times> 'v) list \<Rightarrow> 'k \<Rightarrow> bool" where
  "dict_has d k = (map_of d k \<noteq> None)"

section \<open>Model builder\<close>

text \<open>The dict stored in \<^verbatim>\<open>var_cut[nname]\<close> for one cut that is not a self-cut.\<close>

record cut_info =
  var :: nat
  ci_leaves :: "string list"
  ci_inv_cost :: int
  ci_area_cost :: int
  ci_depth_cost :: int
  lex_weight :: nat
  cut_index :: nat

text \<open>
  \<^verbatim>\<open>{nd["name"]: model.NewBoolVar(...) for nd in node_dicts}\<close>, and the same
  comprehension with \<^verbatim>\<open>NewIntVar(0, max_depth_bound, ...)\<close> for the levels.
\<close>

fun new_node_vars ::
  "int \<Rightarrow> int \<Rightarrow> int node list \<Rightarrow> cp_model \<Rightarrow> (string \<times> nat) list
     \<Rightarrow> cp_model \<times> (string \<times> nat) list" where
  "new_node_vars lo hi [] m d = (m, d)"
| "new_node_vars lo hi (nd # nds) m d =
     (case NewIntVar lo hi m of
        (v, m') \<Rightarrow> new_node_vars lo hi nds m' (AList.update (name nd) v d))"

text \<open>
  \<^verbatim>\<open>for i, cut_obj in enumerate(nd["cuts"])\<close>: a self-cut is skipped before any
  variable is made; \<open>i\<close> counts every cut, \<open>cut_counter\<close> only the cuts that get a
  variable.
\<close>

fun new_cut_vars_node ::
  "string \<Rightarrow> nat \<Rightarrow> int cut list \<Rightarrow> cp_model \<Rightarrow> nat \<Rightarrow> cut_info list
     \<Rightarrow> cp_model \<times> nat \<times> cut_info list" where
  "new_cut_vars_node nname i [] m cut_counter acc = (m, cut_counter, acc)"
| "new_cut_vars_node nname i (cut_obj # rest) m cut_counter acc =
     (if leaves cut_obj = [nname] then new_cut_vars_node nname (Suc i) rest m cut_counter acc
      else
        (case NewBoolVar m of
           (cvar, m') \<Rightarrow>
             new_cut_vars_node nname (Suc i) rest m' (Suc cut_counter)
               (acc @ [\<lparr>var = cvar,
                        ci_leaves = leaves cut_obj,
                        ci_inv_cost = (case inv_cost cut_obj of None \<Rightarrow> 0 | Some k \<Rightarrow> k),
                        ci_area_cost = (case area_cost cut_obj of
                                          None \<Rightarrow> int (length (leaves cut_obj)) | Some k \<Rightarrow> k),
                        ci_depth_cost = (case depth_cost cut_obj of None \<Rightarrow> 1 | Some k \<Rightarrow> k),
                        lex_weight = cut_counter,
                        cut_index = i\<rparr>])))"

fun new_cut_vars ::
  "int node list \<Rightarrow> cp_model \<Rightarrow> nat \<Rightarrow> (string \<times> cut_info list) list
     \<Rightarrow> cp_model \<times> nat \<times> (string \<times> cut_info list) list" where
  "new_cut_vars [] m cut_counter var_cut = (m, cut_counter, var_cut)"
| "new_cut_vars (nd # nds) m cut_counter var_cut =
     (case new_cut_vars_node (name nd) 0 (cuts nd) m cut_counter [] of
        (m', cut_counter', infos) \<Rightarrow>
          new_cut_vars nds m' cut_counter' (AList.update (name nd) infos var_cut))"

text \<open>
  What the entries of \<^verbatim>\<open>var_cut[nname]\<close> are, for the proofs: an entry stands for the cut
  at its \<^verbatim>\<open>cut_index\<close> in the node's \<^verbatim>\<open>cuts\<close>, and the entries of a node are, in
  order, the positions of its cuts that are not self-cuts.
\<close>

definition cut_entry :: "int cut list \<Rightarrow> cut_info \<Rightarrow> bool" where
  "cut_entry cs ci \<longleftrightarrow>
     cut_index ci < length cs
     \<and> ci_leaves ci = leaves (cs ! cut_index ci)
     \<and> ci_depth_cost ci = (case depth_cost (cs ! cut_index ci) of None \<Rightarrow> 1 | Some k \<Rightarrow> k)"

definition node_entries :: "int node \<Rightarrow> cut_info list \<Rightarrow> bool" where
  "node_entries nd infos \<longleftrightarrow>
     map cut_index infos =
       map fst (filter (\<lambda>(j, c). leaves c \<noteq> [name nd]) (enumerate 0 (cuts nd)))
     \<and> (\<forall>ci \<in> set infos. cut_entry (cuts nd) ci \<and> ci_leaves ci \<noteq> [name nd])"

text \<open>(A) exactly one cut if the node is used, none otherwise.\<close>

definition constraint_A ::
  "(string \<times> nat) list \<Rightarrow> (string \<times> cut_info list) list \<Rightarrow> string \<Rightarrow> constr" where
  "constraint_A var_node_used var_cut nname =
     (let cuts_for_node = dict_get var_cut nname
      in if cuts_for_node \<noteq> []
         then CEq (LSum (map (\<lambda>ci. LVar (var ci)) cuts_for_node))
                  (LVar (dict_get var_node_used nname))
         else CEq (LVar (dict_get var_node_used nname)) (LConst 0))"

text \<open>(B) a chosen cut forces its leaves that are nodes; any other leaf gets the constant.\<close>

definition constraints_B ::
  "(string \<times> nat) list \<Rightarrow> (string \<times> cut_info list) list \<Rightarrow> string set \<Rightarrow> nat \<Rightarrow> string
     \<Rightarrow> constr list" where
  "constraints_B var_node_used var_cut node_names forced_1 nname =
     concat (map (\<lambda>ci.
        map (\<lambda>leaf. if leaf \<in> node_names
                     then CImp (var ci) (dict_get var_node_used leaf)
                     else CImp (var ci) forced_1)
            (ci_leaves ci))
       (dict_get var_cut nname))"

text \<open>
  The level constraints of one node: \<^verbatim>\<open>step = ci.get("depth_cost", 1) or 1\<close>, and one
  big-M inequality for every leaf that has a level variable.
\<close>

definition level_step :: "cut_info \<Rightarrow> int" where
  "level_step ci = (if ci_depth_cost ci = 0 then 1 else ci_depth_cost ci)"

definition level_constraints_node ::
  "(string \<times> nat) list \<Rightarrow> (string \<times> cut_info list) list \<Rightarrow> (string \<times> nat) list
     \<Rightarrow> string list \<Rightarrow> int \<Rightarrow> string \<Rightarrow> constr list" where
  "level_constraints_node var_node_used var_cut level_vars inps big_m nname =
     (if \<not> dict_has level_vars nname then []
      else
        (let node_level = dict_get level_vars nname
         in [CLe (LVar node_level) (LMul big_m (LVar (dict_get var_node_used nname)))]
            @ (if nname \<notin> set inps
               then [CGe (LVar node_level) (LVar (dict_get var_node_used nname))] else [])
            @ concat (map (\<lambda>ci.
                 map (\<lambda>leaf.
                        CGe (LVar node_level)
                            (LSub (LAdd (LVar (dict_get level_vars leaf)) (LConst (level_step ci)))
                                  (LMul big_m (LSub (LConst 1) (LVar (var ci))))))
                     (filter (dict_has level_vars) (ci_leaves ci)))
                (dict_get var_cut nname))))"

text \<open>
  The block \<^verbatim>\<open>if include_depth:\<close>. It returns the model, \<^verbatim>\<open>level_vars\<close> and
  \<^verbatim>\<open>D\<close>.
\<close>

definition add_depth ::
  "int node list \<Rightarrow> string list \<Rightarrow> (string \<times> nat) list \<Rightarrow> (string \<times> cut_info list) list
     \<Rightarrow> int \<Rightarrow> int option \<Rightarrow> cp_model \<Rightarrow> cp_model \<times> (string \<times> nat) list \<times> nat" where
  "add_depth node_dicts inps var_node_used var_cut depth_bound fix_depth m =
     (let max_depth_bound =
            max 1 (if depth_bound \<noteq> 0 then depth_bound else len_or_1 node_dicts)
      in case new_node_vars 0 max_depth_bound node_dicts m [] of
           (m1, level_vars) \<Rightarrow>
             (case NewIntVar 0 max_depth_bound m1 of
                (D, m2) \<Rightarrow>
                  (let m3 = add_all (map (\<lambda>inp. CEq (LVar (dict_get level_vars inp)) (LConst 0))
                                         (filter (dict_has level_vars) inps)) m2;
                       big_m = max_depth_bound;
                       m4 = add_all (concat (map (\<lambda>nd.
                              level_constraints_node var_node_used var_cut level_vars inps big_m
                                (name nd)) node_dicts)) m3;
                       m5 = add_all (map (\<lambda>(nname, lvl). CGe (LVar D) (LVar lvl)) level_vars) m4;
                       m6 = (case fix_depth of
                               None \<Rightarrow> m5
                             | Some fd \<Rightarrow> Add (CEq (LVar D) (LConst fd)) m5)
                   in (m6, level_vars, D))))"

text \<open>
  \<^verbatim>\<open># force outputs as roots if present\<close>. \<open>outs\<close> is \<^verbatim>\<open>data.get("outputs", [])\<close>,
  tested for truth: an absent, null or empty list takes the fallback.
\<close>

definition root_constraints ::
  "(string \<times> nat) list \<Rightarrow> string list \<Rightarrow> int node list \<Rightarrow> constr list" where
  "root_constraints var_node_used outs node_dicts =
     (if outs \<noteq> [] then
        map (\<lambda>out. CEq (LVar (dict_get var_node_used out)) (LConst 1))
            (filter (dict_has var_node_used) outs)
      else if dict_has var_node_used ''Nout'' then
        [CEq (LVar (dict_get var_node_used ''Nout'')) (LConst 1)]
      else if node_dicts \<noteq> [] then
        [CEq (LVar (dict_get var_node_used (name (last node_dicts)))) (LConst 1)]
      else [])"

text \<open>The dict \<^verbatim>\<open>build_model\<close> returns, its keys prefixed with \<open>b_\<close>.\<close>

record built =
  b_model :: cp_model
  b_var_node_used :: "(string \<times> nat) list"
  b_var_cut :: "(string \<times> cut_info list) list"
  b_D :: "nat option"
  b_area_terms :: "lin list"
  b_inv_terms :: "lin list"
  b_original_terms :: "lin list"
  b_level_vars :: "(string \<times> nat) list"
  b_depth_bound :: "int option"

definition cost_terms ::
  "(cut_info \<Rightarrow> int) \<Rightarrow> int node list \<Rightarrow> (string \<times> cut_info list) list \<Rightarrow> lin list" where
  "cost_terms cost node_dicts var_cut =
     concat (map (\<lambda>nd. map (\<lambda>ci. LMul (cost ci) (LVar (var ci))) (dict_get var_cut (name nd)))
                 node_dicts)"

definition build_model :: "int catalog \<Rightarrow> int option \<Rightarrow> int option \<Rightarrow> built" where
  "build_model data depth_bound fix_depth =
     (let node_dicts = nodes data;
          outs = (case outputs data of None \<Rightarrow> [] | Some os \<Rightarrow> os);
          inps = (case inputs data of None \<Rightarrow> [] | Some is \<Rightarrow> is)
      in case new_node_vars 0 1 node_dicts CpModel [] of
           (m1, var_node_used) \<Rightarrow>
      (case new_cut_vars node_dicts m1 0 [] of
           (m2, cut_counter, var_cut) \<Rightarrow>
      (let m3 = add_all (map (\<lambda>nd. constraint_A var_node_used var_cut (name nd)) node_dicts) m2
       in case NewConstant 1 m3 of
           (forced_1, m4) \<Rightarrow>
      (let m5 = add_all (concat (map (\<lambda>nd.
                    constraints_B var_node_used var_cut (set (map name node_dicts)) forced_1
                      (name nd)) node_dicts)) m4
       in case (case depth_bound of
                  None \<Rightarrow> (m5, [], None)
                | Some db \<Rightarrow>
                    (case add_depth node_dicts inps var_node_used var_cut db fix_depth m5 of
                       (m, lv, d) \<Rightarrow> (m, lv, Some d))) of
           (m6, level_vars, D) \<Rightarrow>
      (let m7 = add_all (root_constraints var_node_used outs node_dicts) m6
       in \<lparr>b_model = m7,
           b_var_node_used = var_node_used,
           b_var_cut = var_cut,
           b_D = D,
           b_area_terms = cost_terms ci_area_cost node_dicts var_cut,
           b_inv_terms = cost_terms ci_inv_cost node_dicts var_cut,
           b_original_terms =
             cost_terms (\<lambda>ci. 10 * ci_inv_cost ci + 1 * ci_area_cost ci) node_dicts var_cut,
           b_level_vars = level_vars,
           b_depth_bound = depth_bound\<rparr>)))))"


section \<open>Two-phase solver driver\<close>








text \<open>
  \<^verbatim>\<open>_extract_chosen_cuts\<close>: the inner loop stops at the first cut variable whose value
  is 1 and stores its \<^verbatim>\<open>cut_index\<close>.
\<close>

fun first_chosen :: "(nat \<Rightarrow> int) \<Rightarrow> cut_info list \<Rightarrow> nat option" where
  "first_chosen a [] = None"
| "first_chosen a (ci # rest) =
     (if a (var ci) = 1 then Some (cut_index ci) else first_chosen a rest)"

definition extract_chosen_cuts ::
  "int node list \<Rightarrow> (string \<times> nat) list \<Rightarrow> (string \<times> cut_info list) list \<Rightarrow> (nat \<Rightarrow> int)
     \<Rightarrow> (string \<times> nat) list" where
  "extract_chosen_cuts node_dicts var_node_used var_cut a =
     fold (\<lambda>nd chosen_cuts.
             (let nname = name nd
              in if a (dict_get var_node_used nname) = 1
                 then (case first_chosen a (dict_get var_cut nname) of
                         None \<Rightarrow> chosen_cuts
                       | Some i \<Rightarrow> AList.update nname i chosen_cuts)
                 else chosen_cuts))
          node_dicts []"










section \<open>Example catalogs\<close>

text \<open>One node with one cut on a primary input, as a bare list and as a dict without costs.\<close>

definition bare_example :: "int raw_catalog" where
  "bare_example =
     \<lparr>raw_nodes = Some [\<lparr>raw_name = ''a'', raw_cuts = Some [BareCut [''x'']]\<rparr>],
      raw_outputs = Some [''a''], raw_inputs = None\<rparr>"

definition dict_example :: "int raw_catalog" where
  "dict_example =
     \<lparr>raw_nodes = Some [\<lparr>raw_name = ''a'', raw_cuts = Some
        [DictCut \<lparr>leaves = [''x''], inv_cost = None, area_cost = None, depth_cost = None\<rparr>]\<rparr>],
      raw_outputs = Some [''a''], raw_inputs = None\<rparr>"










text \<open>
  A chain \<open>x \<rightarrow> a \<rightarrow> b\<close> in which the first cut of \<open>a\<close> is a self-cut; two nodes of
  which the first is named \<^verbatim>\<open>Nout\<close>, without outputs; a node with a cut that has the
  node itself among its leaves.
\<close>

definition chain_nodes :: "int node list" where
  "chain_nodes =
     [\<lparr>name = ''a'', cuts =
        [\<lparr>leaves = [''a''], inv_cost = Some 0, area_cost = Some 1, depth_cost = Some 1\<rparr>,
         \<lparr>leaves = [''x''], inv_cost = Some 0, area_cost = Some 1, depth_cost = Some 1\<rparr>]\<rparr>,
      \<lparr>name = ''b'', cuts =
        [\<lparr>leaves = [''a''], inv_cost = Some 0, area_cost = Some 1, depth_cost = Some 1\<rparr>]\<rparr>]"

definition chain_example :: "int catalog" where
  "chain_example = \<lparr>nodes = chain_nodes, outputs = Some [''b''], inputs = Some []\<rparr>"



text \<open>Assignments: every variable 1, and every variable 1 but one.\<close>

definition all_ones :: "nat \<Rightarrow> int" where
  "all_ones v = 1"


section \<open>Properties of the loader\<close>

text \<open>
  C3, as amended. A bare-list cut is lifted to the record with the defaults
  \<open>inv_cost = 0\<close>, \<open>area_cost = len(leaves)\<close>, \<open>depth_cost = 1\<close>. A cut that is
  already a record is kept exactly as given: the loader fills in none of its missing
  cost fields. So a dict cut loads to the same record as the bare list of its leaves
  exactly when it spells out the three default costs. The defaults of a record without
  costs are applied where the cut is read: the model builder makes the same cut variable
  record, and the depth bounder takes the same step, for the record without costs and for
  the lifted bare list.
\<close>

theorem normalize_cut_forms:
  "normalize_cut (DictCut d) = d
   \<and> normalize_cut (BareCut ls) =
       \<lparr>leaves = ls, inv_cost = Some 0, area_cost = Some (of_nat (length ls)),
        depth_cost = Some 1\<rparr>
   \<and> (normalize_cut (DictCut d) = normalize_cut (BareCut ls) \<longleftrightarrow>
        d = \<lparr>leaves = ls, inv_cost = Some 0, area_cost = Some (of_nat (length ls)),
             depth_cost = Some 1\<rparr>)
   \<and> new_cut_vars_node nname i
         [\<lparr>leaves = ls, inv_cost = None, area_cost = None, depth_cost = None\<rparr>] m k acc
       = new_cut_vars_node nname i [normalize_cut (BareCut ls)] m k acc
   \<and> depth_step \<lparr>leaves = ls, inv_cost = None, area_cost = None, depth_cost = None\<rparr>
       = depth_step (normalize_cut (BareCut ls))"
  by (simp add: normalize_cut_def depth_step_def split: prod.splits)

text \<open>
  C3 as stated fails: the catalog whose cut is the dict \<^verbatim>\<open>{"leaves": ["x"]}\<close> loads with
  the three cost fields still missing, and differs from the loaded catalog whose cut is
  the bare list \<^verbatim>\<open>["x"]\<close>.
\<close>

theorem dict_cut_defaults_counterexample:
  "normalize_cuts_data dict_example =
     \<lparr>nodes = [\<lparr>name = ''a'', cuts =
        [\<lparr>leaves = [''x''], inv_cost = None, area_cost = None, depth_cost = None\<rparr>]\<rparr>],
      outputs = Some [''a''], inputs = Some []\<rparr>
   \<and> normalize_cuts_data bare_example =
     \<lparr>nodes = [\<lparr>name = ''a'', cuts =
        [\<lparr>leaves = [''x''], inv_cost = Some 0, area_cost = Some 1, depth_cost = Some 1\<rparr>]\<rparr>],
      outputs = Some [''a''], inputs = Some []\<rparr>
   \<and> normalize_cuts_data dict_example \<noteq> normalize_cuts_data bare_example"
  by (simp add: dict_example_def bare_example_def normalize_cuts_data_def normalize_node_def
      normalize_cut_def)




section \<open>Properties of the depth bounder\<close>







section \<open>Properties of the driver\<close>












section \<open>Properties of the model builder\<close>

subsection \<open>Models and variables\<close>

lemma add_all_constraints [simp]: "constraints (add_all cs m) = constraints m @ cs"
  unfolding add_all_def by (induction cs arbitrary: m) (simp_all add: Add_def)

lemma add_all_domains [simp]: "domains (add_all cs m) = domains m"
  unfolding add_all_def by (induction cs arbitrary: m) (simp_all add: Add_def)

lemma Add_constraints [simp]: "constraints (Add c m) = constraints m @ [c]"
  by (simp add: Add_def)

lemma Add_domains [simp]: "domains (Add c m) = domains m"
  by (simp add: Add_def)

lemma in_domains_nth:
  "in_domains ds a \<Longrightarrow> v < length ds \<Longrightarrow> fst (ds ! v) \<le> a v \<and> a v \<le> snd (ds ! v)"
  unfolding in_domains_def list_all_iff
  by (cases "ds ! v")
     (auto simp: in_set_enumerate_eq split: prod.splits dest!: bspec[where x = "(v, ds ! v)"])

lemma bool_value:
  "in_domains ds a \<Longrightarrow> v < length ds \<Longrightarrow> ds ! v = (0, 1) \<Longrightarrow> a v = 0 \<or> a v = 1"
  by (drule (1) in_domains_nth) auto

text \<open>The dict comprehension makes one variable per node, and every name of a node is a key.\<close>

lemma new_node_vars_model:
  "new_node_vars lo hi nds m d = (m', d') \<Longrightarrow>
     constraints m' = constraints m
     \<and> domains m' = domains m @ replicate (length nds) (lo, hi)"
proof (induction nds arbitrary: m d)
  case Nil
  then show ?case by simp
next
  case (Cons nd nds)
  from Cons.prems Cons.IH[of "snd (NewIntVar lo hi m)" "AList.update (name nd) (length (domains m)) d"]
  show ?case
    by (simp add: NewIntVar_def replicate_app_Cons_same)
qed

lemma new_node_vars_dict:
  "new_node_vars lo hi nds m d = (m', d') \<Longrightarrow>
     (n \<in> name ` set nds \<longrightarrow>
        (\<exists>v. map_of d' n = Some v \<and> length (domains m) \<le> v
              \<and> v < length (domains m) + length nds))
     \<and> (n \<notin> name ` set nds \<longrightarrow> map_of d' n = map_of d n)"
proof (induction nds arbitrary: m d)
  case Nil
  then show ?case by simp
next
  case (Cons nd nds)
  let ?m1 = "snd (NewIntVar lo hi m)"
  let ?d1 = "AList.update (name nd) (length (domains m)) d"
  from Cons.prems have r: "new_node_vars lo hi nds ?m1 ?d1 = (m', d')"
    by (simp add: NewIntVar_def)
  have len: "length (domains ?m1) = Suc (length (domains m))"
    by (simp add: NewIntVar_def)
  from Cons.IH[OF r] len show ?case
    by (auto simp: update_conv')
qed

lemma new_node_vars_keys:
  assumes "new_node_vars lo hi nds m [] = (m', d')"
  shows "dict_has d' n \<longleftrightarrow> n \<in> name ` set nds"
  using new_node_vars_dict[OF assms, of n] by (auto simp: dict_has_def)

subsection \<open>Cut variables\<close>

lemma new_cut_vars_node_inv:
  "new_cut_vars_node nname i cs m k acc = (m', k', acc') \<Longrightarrow>
     \<exists>new. acc' = acc @ new
       \<and> constraints m' = constraints m
       \<and> domains m' = domains m @ replicate (length new) (0, 1)
       \<and> list_all2 (\<lambda>ci (j, c). cut_index ci = j \<and> ci_leaves ci = leaves c
                       \<and> ci_depth_cost ci = (case depth_cost c of None \<Rightarrow> 1 | Some k \<Rightarrow> k))
            new (filter (\<lambda>(j, c). leaves c \<noteq> [nname]) (enumerate i cs))
       \<and> (\<forall>ci \<in> set new. length (domains m) \<le> var ci \<and> var ci < length (domains m'))"
proof (induction cs arbitrary: i m k acc)
  case Nil
  then show ?case by simp
next
  case (Cons c rest)
  show ?case
  proof (cases "leaves c = [nname]")
    case True
    with Cons.prems have "new_cut_vars_node nname (Suc i) rest m k acc = (m', k', acc')"
      by simp
    from Cons.IH[OF this] True show ?thesis by simp
  next
    case False
    define e where "e = \<lparr>var = length (domains m),
                        ci_leaves = leaves c,
                        ci_inv_cost = (case inv_cost c of None \<Rightarrow> 0 | Some k \<Rightarrow> k),
                        ci_area_cost = (case area_cost c of
                                          None \<Rightarrow> int (length (leaves c)) | Some k \<Rightarrow> k),
                        ci_depth_cost = (case depth_cost c of None \<Rightarrow> 1 | Some k \<Rightarrow> k),
                        lex_weight = k,
                        cut_index = i\<rparr>"
    define m1 where "m1 = m\<lparr>domains := domains m @ [(0, 1)]\<rparr>"
    from Cons.prems False
    have "new_cut_vars_node nname (Suc i) rest m1 (Suc k) (acc @ [e]) = (m', k', acc')"
      by (simp add: NewBoolVar_def NewIntVar_def e_def m1_def)
    from Cons.IH[OF this] obtain new where new: "acc' = (acc @ [e]) @ new"
      "constraints m' = constraints m1"
      "domains m' = domains m1 @ replicate (length new) (0, 1)"
      "list_all2 (\<lambda>ci (j, c). cut_index ci = j \<and> ci_leaves ci = leaves c
                       \<and> ci_depth_cost ci = (case depth_cost c of None \<Rightarrow> 1 | Some k \<Rightarrow> k))
            new (filter (\<lambda>(j, c). leaves c \<noteq> [nname]) (enumerate (Suc i) rest))"
      "\<forall>ci \<in> set new. length (domains m1) \<le> var ci \<and> var ci < length (domains m')"
      by blast
    have "acc' = acc @ (e # new)" using new(1) by simp
    moreover have "constraints m' = constraints m" using new(2) by (simp add: m1_def)
    moreover have "domains m' = domains m @ replicate (length (e # new)) (0, 1)"
      using new(3) by (simp add: m1_def)
    moreover have "list_all2 (\<lambda>ci (j, c). cut_index ci = j \<and> ci_leaves ci = leaves c
                       \<and> ci_depth_cost ci = (case depth_cost c of None \<Rightarrow> 1 | Some k \<Rightarrow> k))
            (e # new) (filter (\<lambda>(j, c). leaves c \<noteq> [nname]) (enumerate i (c # rest)))"
      using new(4) False by (simp add: e_def)
    moreover have "\<forall>ci \<in> set (e # new). length (domains m) \<le> var ci \<and> var ci < length (domains m')"
      using new(5) new(3) by (auto simp: m1_def e_def)
    ultimately show ?thesis by blast
  qed
qed

lemma list_all2_map_eq:
  "list_all2 (\<lambda>x y. f x = g y) xs ys \<Longrightarrow> map f xs = map g ys"
  by (induction xs ys rule: list_all2_induct) auto

lemma new_cut_vars_node_entries:
  assumes "new_cut_vars_node nname 0 cs m k [] = (m', k', infos)"
  shows "constraints m' = constraints m"
    and "\<exists>j. domains m' = domains m @ replicate j (0, 1)"
    and "map cut_index infos = map fst (filter (\<lambda>(j, c). leaves c \<noteq> [nname]) (enumerate 0 cs))"
    and "\<forall>ci \<in> set infos. cut_entry cs ci \<and> ci_leaves ci \<noteq> [nname]
            \<and> length (domains m) \<le> var ci \<and> var ci < length (domains m')"
proof -
  from new_cut_vars_node_inv[OF assms] have inv:
    "constraints m' = constraints m"
    "domains m' = domains m @ replicate (length infos) (0, 1)"
    "list_all2 (\<lambda>ci (j, c). cut_index ci = j \<and> ci_leaves ci = leaves c
                       \<and> ci_depth_cost ci = (case depth_cost c of None \<Rightarrow> 1 | Some k \<Rightarrow> k))
            infos (filter (\<lambda>(j, c). leaves c \<noteq> [nname]) (enumerate 0 cs))"
    "\<forall>ci \<in> set infos. length (domains m) \<le> var ci \<and> var ci < length (domains m')"
    by auto
  show "constraints m' = constraints m" by fact
  show "\<exists>j. domains m' = domains m @ replicate j (0, 1)" using inv(2) by blast
  let ?sel = "filter (\<lambda>(j, c). leaves c \<noteq> [nname]) (enumerate 0 cs)"
  from inv(3) have "list_all2 (\<lambda>ci p. cut_index ci = fst p) infos ?sel"
    by (rule list_all2_mono) auto
  then show "map cut_index infos = map fst ?sel"
    by (rule list_all2_map_eq)
  show "\<forall>ci \<in> set infos. cut_entry cs ci \<and> ci_leaves ci \<noteq> [nname]
            \<and> length (domains m) \<le> var ci \<and> var ci < length (domains m')"
  proof
    fix ci assume ci: "ci \<in> set infos"
    then obtain t where t: "t < length infos" "ci = infos ! t"
      by (auto simp: in_set_conv_nth)
    from inv(3) have len: "length infos = length ?sel"
      by (rule list_all2_lengthD)
    define p where "p = ?sel ! t"
    from list_all2_nthD[OF inv(3) t(1)] t(2)
    have "cut_index ci = fst p" "ci_leaves ci = leaves (snd p)"
      "ci_depth_cost ci = (case depth_cost (snd p) of None \<Rightarrow> 1 | Some k \<Rightarrow> k)"
      by (simp_all add: p_def split: prod.splits)
    moreover have "p \<in> set ?sel" unfolding p_def using t(1) len by (intro nth_mem) simp
    ultimately have p: "p \<in> set ?sel" "cut_index ci = fst p"
      "ci_leaves ci = leaves (snd p)"
      "ci_depth_cost ci = (case depth_cost (snd p) of None \<Rightarrow> 1 | Some k \<Rightarrow> k)"
      by simp_all
    then have "fst p < length cs" "snd p = cs ! fst p" "leaves (snd p) \<noteq> [nname]"
      by (auto simp: in_set_enumerate_eq)
    with p ci inv(4) show "cut_entry cs ci \<and> ci_leaves ci \<noteq> [nname]
            \<and> length (domains m) \<le> var ci \<and> var ci < length (domains m')"
      by (simp add: cut_entry_def)
  qed
qed

lemma node_map_fold:
  "map_of (fold (\<lambda>nd d. AList.update (name nd) nd d) nds nm) n = Some nd \<Longrightarrow>
     (name nd = n \<and> nd \<in> set nds) \<or> (n \<notin> name ` set nds \<and> map_of nm n = Some nd)"
proof (induction nds arbitrary: nm)
  case Nil
  then show ?case by simp
next
  case (Cons x nds)
  from Cons.IH[of "AList.update (name x) x nm"] Cons.prems show ?case
    by (auto simp: update_conv' split: if_splits)
qed

lemma node_map_Some: "map_of (node_map nds) n = Some nd \<Longrightarrow> name nd = n \<and> nd \<in> set nds"
  using node_map_fold[of nds "[]" n nd] by (simp add: node_map_def)

lemma node_map_fold_keys:
  "map_of (fold (\<lambda>nd d. AList.update (name nd) nd d) nds nm) n \<noteq> None
     \<longleftrightarrow> n \<in> name ` set nds \<or> map_of nm n \<noteq> None"
  by (induction nds arbitrary: nm) (auto simp: update_conv')

lemma node_map_keys: "map_of (node_map nds) n \<noteq> None \<longleftrightarrow> n \<in> name ` set nds"
  using node_map_fold_keys[of nds "[]" n] by (simp add: node_map_def)

lemma new_cut_vars_inv:
  assumes "new_cut_vars nds m k vc = (m', k', vc')"
    and "\<forall>n. rel_option (\<lambda>nd infos. node_entries nd infos
                 \<and> (\<forall>ci \<in> set infos. B \<le> var ci \<and> var ci < length (domains m)))
             (map_of nm n) (map_of vc n)"
    and "B \<le> length (domains m)"
  shows "constraints m' = constraints m
     \<and> (\<exists>j. domains m' = domains m @ replicate j (0, 1))
     \<and> (\<forall>n. rel_option (\<lambda>nd infos. node_entries nd infos
                 \<and> (\<forall>ci \<in> set infos. B \<le> var ci \<and> var ci < length (domains m')))
             (map_of (fold (\<lambda>nd d. AList.update (name nd) nd d) nds nm) n) (map_of vc' n))"
  using assms
proof (induction nds arbitrary: m k vc nm)
  case Nil
  then show ?case by simp
next
  case (Cons nd nds)
  obtain m1 k1 infos where node: "new_cut_vars_node (name nd) 0 (cuts nd) m k [] = (m1, k1, infos)"
    by (cases "new_cut_vars_node (name nd) 0 (cuts nd) m k []") auto
  note e = new_cut_vars_node_entries[OF node]
  from e(2) obtain j1 where j1: "domains m1 = domains m @ replicate j1 (0, 1)" by blast
  from Cons.prems(1) node
  have rest: "new_cut_vars nds m1 k1 (AList.update (name nd) infos vc) = (m', k', vc')"
    by simp
  have B: "B \<le> length (domains m1)" using Cons.prems(3) j1 by simp
  have ne: "node_entries nd infos" using e(3,4) by (simp add: node_entries_def)
  have rng: "\<forall>ci \<in> set infos. B \<le> var ci \<and> var ci < length (domains m1)"
    using e(4) Cons.prems(3) by auto
  have rel: "\<forall>n. rel_option (\<lambda>nd infos. node_entries nd infos
                 \<and> (\<forall>ci \<in> set infos. B \<le> var ci \<and> var ci < length (domains m1)))
             (map_of (AList.update (name nd) nd nm) n)
             (map_of (AList.update (name nd) infos vc) n)"
  proof
    fix n
    show "rel_option (\<lambda>nd infos. node_entries nd infos
                 \<and> (\<forall>ci \<in> set infos. B \<le> var ci \<and> var ci < length (domains m1)))
             (map_of (AList.update (name nd) nd nm) n)
             (map_of (AList.update (name nd) infos vc) n)"
    proof (cases "n = name nd")
      case True
      with ne rng show ?thesis by (simp add: update_conv')
    next
      case False
      have "rel_option (\<lambda>nd infos. node_entries nd infos
                 \<and> (\<forall>ci \<in> set infos. B \<le> var ci \<and> var ci < length (domains m)))
             (map_of nm n) (map_of vc n)"
        using Cons.prems(2) by blast
      then have "rel_option (\<lambda>nd infos. node_entries nd infos
                 \<and> (\<forall>ci \<in> set infos. B \<le> var ci \<and> var ci < length (domains m1)))
             (map_of nm n) (map_of vc n)"
        by (rule option.rel_mono_strong) (use j1 in auto)
      with False show ?thesis by (simp add: update_conv')
    qed
  qed
  from Cons.IH[OF rest rel B] e(1) j1 show ?case
    by (auto simp: replicate_add[symmetric] simp del: replicate_add)
qed

lemma new_cut_vars_entries:
  assumes "new_cut_vars nds m k [] = (m', k', vc)"
  shows "constraints m' = constraints m"
    and "\<exists>j. domains m' = domains m @ replicate j (0, 1)"
    and "map_of (node_map nds) n = Some nd \<Longrightarrow>
           \<exists>infos. map_of vc n = Some infos \<and> node_entries nd infos
             \<and> (\<forall>ci \<in> set infos. length (domains m) \<le> var ci \<and> var ci < length (domains m'))"
    and "map_of (node_map nds) n = None \<Longrightarrow> map_of vc n = None"
proof -
  have "\<forall>n. rel_option (\<lambda>nd infos. node_entries nd infos
                 \<and> (\<forall>ci \<in> set infos. length (domains m) \<le> var ci \<and> var ci < length (domains m)))
             (map_of [] n) (map_of [] n)"
    by simp
  from new_cut_vars_inv[OF assms this] have inv:
    "constraints m' = constraints m"
    "\<exists>j. domains m' = domains m @ replicate j (0, 1)"
    "\<And>n. rel_option (\<lambda>nd infos. node_entries nd infos
                 \<and> (\<forall>ci \<in> set infos. length (domains m) \<le> var ci \<and> var ci < length (domains m')))
             (map_of (node_map nds) n) (map_of vc n)"
    by (simp_all add: node_map_def)
  show "constraints m' = constraints m" by fact
  show "\<exists>j. domains m' = domains m @ replicate j (0, 1)" by fact
  show "map_of (node_map nds) n = Some nd \<Longrightarrow>
           \<exists>infos. map_of vc n = Some infos \<and> node_entries nd infos
             \<and> (\<forall>ci \<in> set infos. length (domains m) \<le> var ci \<and> var ci < length (domains m'))"
    using inv(3)[of n] by (cases "map_of vc n") auto
  show "map_of (node_map nds) n = None \<Longrightarrow> map_of vc n = None"
    using inv(3)[of n] by (cases "map_of vc n") auto
qed

text \<open>Every name of a node is a key of \<^verbatim>\<open>var_cut\<close>.\<close>

lemma new_cut_vars_keys:
  assumes "new_cut_vars nds m k [] = (m', k', vc)"
  shows "dict_has vc n \<longleftrightarrow> n \<in> name ` set nds"
proof (cases "map_of (node_map nds) n")
  case None
  with new_cut_vars_entries(4)[OF assms None] node_map_keys[of nds n] show ?thesis
    by (simp add: dict_has_def)
next
  case (Some nd)
  with new_cut_vars_entries(3)[OF assms Some] node_map_keys[of nds n] show ?thesis
    by (auto simp: dict_has_def)
qed

subsection \<open>The structure of a built model\<close>

lemma add_depth_structure:
  assumes "add_depth ns inps used vc db fd m = (m', lv, D)"
  shows "\<exists>pre post. constraints m' = constraints m @ pre
            @ concat (map (\<lambda>nd. level_constraints_node used vc lv inps
                 (max 1 (if db \<noteq> 0 then db else len_or_1 ns)) (name nd)) ns) @ post"
    and "\<exists>xs. domains m' = domains m @ xs"
    and "dict_has lv n \<longleftrightarrow> n \<in> name ` set ns"
proof -
  let ?mdb = "max 1 (if db \<noteq> 0 then db else len_or_1 ns)"
  obtain m1 lv1 where v: "new_node_vars 0 ?mdb ns m [] = (m1, lv1)"
    by (cases "new_node_vars 0 ?mdb ns m []") auto
  from assms v have lv: "lv = lv1"
    by (simp add: add_depth_def Let_def NewIntVar_def split: option.splits)
  note mm = new_node_vars_model[OF v]
  let ?pre = "map (\<lambda>inp. CEq (LVar (dict_get lv inp)) (LConst 0)) (filter (dict_has lv) inps)"
  let ?lvl = "concat (map (\<lambda>nd. level_constraints_node used vc lv inps ?mdb (name nd)) ns)"
  let ?post = "map (\<lambda>(nname, lvl). CGe (LVar D) (LVar lvl)) lv
                 @ (case fd of None \<Rightarrow> [] | Some f \<Rightarrow> [CEq (LVar D) (LConst f)])"
  from assms v have "constraints m' = constraints m @ ?pre @ ?lvl @ ?post"
    using mm by (auto simp: add_depth_def Let_def NewIntVar_def split: option.splits)
  then show "\<exists>pre post. constraints m' = constraints m @ pre
            @ concat (map (\<lambda>nd. level_constraints_node used vc lv inps ?mdb (name nd)) ns) @ post"
    by blast
  from assms v show "\<exists>xs. domains m' = domains m @ xs"
    using mm by (auto simp: add_depth_def Let_def NewIntVar_def split: option.splits)
  from new_node_vars_keys[OF v] lv show "dict_has lv n \<longleftrightarrow> n \<in> name ` set ns" by simp
qed

lemma build_model_structure:
  fixes data :: "int catalog"
  defines "ns \<equiv> nodes data"
  defines "outs \<equiv> (case outputs data of None \<Rightarrow> [] | Some os \<Rightarrow> os)"
  defines "inps \<equiv> (case inputs data of None \<Rightarrow> [] | Some is \<Rightarrow> is)"
  assumes b: "b = build_model data db fd"
  obtains m1 m2 k C xs where
    "new_node_vars 0 1 ns CpModel [] = (m1, b_var_node_used b)"
    "new_cut_vars ns m1 0 [] = (m2, k, b_var_cut b)"
    "constraints (b_model b) =
       map (\<lambda>nd. constraint_A (b_var_node_used b) (b_var_cut b) (name nd)) ns
       @ concat (map (\<lambda>nd. constraints_B (b_var_node_used b) (b_var_cut b) (set (map name ns))
                        (length (domains m2)) (name nd)) ns)
       @ C @ root_constraints (b_var_node_used b) outs ns"
    "domains (b_model b) = domains m2 @ xs"
    "db = None \<Longrightarrow> C = []"
    "\<And>d. db = Some d \<Longrightarrow>
       (\<exists>pre post. C = pre @ concat (map (\<lambda>nd. level_constraints_node (b_var_node_used b)
            (b_var_cut b) (b_level_vars b) inps (max 1 (if d \<noteq> 0 then d else len_or_1 ns))
            (name nd)) ns) @ post)
       \<and> (\<forall>n. dict_has (b_level_vars b) n \<longleftrightarrow> n \<in> name ` set ns)"
proof -
  obtain m1 used where u: "new_node_vars 0 1 ns CpModel [] = (m1, used)"
    by (cases "new_node_vars 0 1 ns CpModel []") auto
  obtain m2 k vc where c: "new_cut_vars ns m1 0 [] = (m2, k, vc)"
    by (cases "new_cut_vars ns m1 0 []") auto
  have c1: "constraints m1 = []" using new_node_vars_model[OF u] by (simp add: CpModel_def)
  have c2: "constraints m2 = []" using new_cut_vars_entries(1)[OF c] c1 by simp
  let ?A = "map (\<lambda>nd. constraint_A used vc (name nd)) ns"
  let ?B = "concat (map (\<lambda>nd. constraints_B used vc (set (map name ns))
                        (length (domains m2)) (name nd)) ns)"
  define m5 where "m5 = add_all ?B (snd (NewConstant 1 (add_all ?A m2)))"
  have c5: "constraints m5 = ?A @ ?B" "domains m5 = domains m2 @ [(1, 1)]"
    by (simp_all add: m5_def NewConstant_def NewIntVar_def c2)
  show thesis
  proof (cases db)
    case None
    have bb: "b = \<lparr>b_model = add_all (root_constraints used outs ns) m5,
           b_var_node_used = used, b_var_cut = vc, b_D = None,
           b_area_terms = cost_terms ci_area_cost ns vc,
           b_inv_terms = cost_terms ci_inv_cost ns vc,
           b_original_terms = cost_terms (\<lambda>ci. 10 * ci_inv_cost ci + 1 * ci_area_cost ci) ns vc,
           b_level_vars = [], b_depth_bound = None\<rparr>"
      unfolding b build_model_def Let_def ns_def[symmetric] outs_def[symmetric]
        inps_def[symmetric] None
      by (simp add: u c m5_def NewConstant_def NewIntVar_def)
    show ?thesis
      by (rule that[of m1 m2 k "[]" "[(1, 1)]"]) (simp_all add: bb u c c5 None)
  next
    case (Some d)
    obtain m6 lv dv where ad: "add_depth ns inps used vc d fd m5 = (m6, lv, dv)"
      by (cases "add_depth ns inps used vc d fd m5") auto
    have bb: "b = \<lparr>b_model = add_all (root_constraints used outs ns) m6,
           b_var_node_used = used, b_var_cut = vc, b_D = Some dv,
           b_area_terms = cost_terms ci_area_cost ns vc,
           b_inv_terms = cost_terms ci_inv_cost ns vc,
           b_original_terms = cost_terms (\<lambda>ci. 10 * ci_inv_cost ci + 1 * ci_area_cost ci) ns vc,
           b_level_vars = lv, b_depth_bound = Some d\<rparr>"
      unfolding b build_model_def Let_def ns_def[symmetric] outs_def[symmetric]
        inps_def[symmetric] Some
      using ad by (simp add: u c m5_def NewConstant_def NewIntVar_def)
    note s = add_depth_structure[OF ad]
    from s(1) obtain pre post where pp: "constraints m6 = constraints m5 @ pre
            @ concat (map (\<lambda>nd. level_constraints_node used vc lv inps
                 (max 1 (if d \<noteq> 0 then d else len_or_1 ns)) (name nd)) ns) @ post"
      by blast
    from s(2) obtain ys where ys: "domains m6 = domains m5 @ ys" by blast
    show ?thesis
    proof (rule that[of m1 m2 k "pre
            @ concat (map (\<lambda>nd. level_constraints_node used vc lv inps
                 (max 1 (if d \<noteq> 0 then d else len_or_1 ns)) (name nd)) ns) @ post" "(1, 1) # ys"],
        goal_cases)
      case 1 show ?case by (simp add: bb u)
    next
      case 2 show ?case by (simp add: bb c)
    next
      case 3 show ?case by (simp add: bb pp c5)
    next
      case 4 show ?case by (simp add: bb ys c5)
    next
      case 5 then show ?case by (simp add: Some)
    next
      case (6 d') 
      then have "d' = d" using Some by simp
      then show ?case using s(3) by (auto simp: bb)
    qed
  qed
qed

lemma build_model_facts:
  fixes data :: "int catalog"
  defines "ns \<equiv> nodes data"
  defines "m1 \<equiv> fst (new_node_vars 0 1 ns CpModel [])"
  defines "m2 \<equiv> fst (new_cut_vars ns m1 0 [])"
  assumes b: "b = build_model data db fd"
  shows "new_node_vars 0 1 ns CpModel [] = (m1, b_var_node_used b)"
    and "\<exists>k. new_cut_vars ns m1 0 [] = (m2, k, b_var_cut b)"
    and "\<exists>C. constraints (b_model b) =
           map (\<lambda>nd. constraint_A (b_var_node_used b) (b_var_cut b) (name nd)) ns
           @ concat (map (\<lambda>nd. constraints_B (b_var_node_used b) (b_var_cut b) (set (map name ns))
                            (length (domains m2)) (name nd)) ns)
           @ C @ root_constraints (b_var_node_used b)
                   (case outputs data of None \<Rightarrow> [] | Some os \<Rightarrow> os) ns
         \<and> (db = None \<longrightarrow> C = [])
         \<and> (\<forall>d. db = Some d \<longrightarrow>
              (\<exists>pre post. C = pre @ concat (map (\<lambda>nd. level_constraints_node (b_var_node_used b)
                  (b_var_cut b) (b_level_vars b) (case inputs data of None \<Rightarrow> [] | Some is \<Rightarrow> is)
                  (max 1 (if d \<noteq> 0 then d else len_or_1 ns)) (name nd)) ns) @ post))"
    and "\<exists>xs. domains (b_model b) = domains m2 @ xs"
    and "db = Some d \<Longrightarrow> dict_has (b_level_vars b) n \<longleftrightarrow> n \<in> name ` set ns"
proof -
  have "(new_node_vars 0 1 ns CpModel [] = (m1, b_var_node_used b))
    \<and> (\<exists>k. new_cut_vars ns m1 0 [] = (m2, k, b_var_cut b))
    \<and> (\<exists>C. constraints (b_model b) =
           map (\<lambda>nd. constraint_A (b_var_node_used b) (b_var_cut b) (name nd)) ns
           @ concat (map (\<lambda>nd. constraints_B (b_var_node_used b) (b_var_cut b) (set (map name ns))
                            (length (domains m2)) (name nd)) ns)
           @ C @ root_constraints (b_var_node_used b)
                   (case outputs data of None \<Rightarrow> [] | Some os \<Rightarrow> os) ns
         \<and> (db = None \<longrightarrow> C = [])
         \<and> (\<forall>d. db = Some d \<longrightarrow>
              (\<exists>pre post. C = pre @ concat (map (\<lambda>nd. level_constraints_node (b_var_node_used b)
                  (b_var_cut b) (b_level_vars b) (case inputs data of None \<Rightarrow> [] | Some is \<Rightarrow> is)
                  (max 1 (if d \<noteq> 0 then d else len_or_1 ns)) (name nd)) ns) @ post)))
    \<and> (\<exists>xs. domains (b_model b) = domains m2 @ xs)
    \<and> (\<forall>d. db = Some d \<longrightarrow> (\<forall>n. dict_has (b_level_vars b) n \<longleftrightarrow> n \<in> name ` set ns))"
  proof (rule build_model_structure[OF b], goal_cases)
    case (1 m1' m2' k C xs)
    from 1(1) have e1: "m1 = m1'" by (simp add: m1_def ns_def)
    from 1(2) e1 have e2: "m2 = m2'" by (simp add: m2_def ns_def)
    have "new_node_vars 0 1 ns CpModel [] = (m1, b_var_node_used b)"
      using 1(1) e1 by (simp add: ns_def)
    moreover have "\<exists>k. new_cut_vars ns m1 0 [] = (m2, k, b_var_cut b)"
      using 1(2) e1 e2 by (auto simp: ns_def)
    moreover have "\<exists>xs. domains (b_model b) = domains m2 @ xs"
      using 1(4) e2 by blast
    moreover have "\<forall>d. db = Some d \<longrightarrow> (\<forall>n. dict_has (b_level_vars b) n \<longleftrightarrow> n \<in> name ` set ns)"
      using 1(6) by (simp add: ns_def)
    moreover have "constraints (b_model b) =
           map (\<lambda>nd. constraint_A (b_var_node_used b) (b_var_cut b) (name nd)) ns
           @ concat (map (\<lambda>nd. constraints_B (b_var_node_used b) (b_var_cut b) (set (map name ns))
                            (length (domains m2)) (name nd)) ns)
           @ C @ root_constraints (b_var_node_used b)
                   (case outputs data of None \<Rightarrow> [] | Some os \<Rightarrow> os) ns"
      using 1(3) e2 by (simp add: ns_def)
    moreover have "db = None \<longrightarrow> C = []" using 1(5) by simp
    moreover have "\<forall>d. db = Some d \<longrightarrow>
              (\<exists>pre post. C = pre @ concat (map (\<lambda>nd. level_constraints_node (b_var_node_used b)
                  (b_var_cut b) (b_level_vars b) (case inputs data of None \<Rightarrow> [] | Some is \<Rightarrow> is)
                  (max 1 (if d \<noteq> 0 then d else len_or_1 ns)) (name nd)) ns) @ post)"
      unfolding ns_def using 1(6) by blast
    ultimately show ?case by blast
  qed
  then show "new_node_vars 0 1 ns CpModel [] = (m1, b_var_node_used b)"
    and "\<exists>k. new_cut_vars ns m1 0 [] = (m2, k, b_var_cut b)"
    and "\<exists>C. constraints (b_model b) =
           map (\<lambda>nd. constraint_A (b_var_node_used b) (b_var_cut b) (name nd)) ns
           @ concat (map (\<lambda>nd. constraints_B (b_var_node_used b) (b_var_cut b) (set (map name ns))
                            (length (domains m2)) (name nd)) ns)
           @ C @ root_constraints (b_var_node_used b)
                   (case outputs data of None \<Rightarrow> [] | Some os \<Rightarrow> os) ns
         \<and> (db = None \<longrightarrow> C = [])
         \<and> (\<forall>d. db = Some d \<longrightarrow>
              (\<exists>pre post. C = pre @ concat (map (\<lambda>nd. level_constraints_node (b_var_node_used b)
                  (b_var_cut b) (b_level_vars b) (case inputs data of None \<Rightarrow> [] | Some is \<Rightarrow> is)
                  (max 1 (if d \<noteq> 0 then d else len_or_1 ns)) (name nd)) ns) @ post))"
    and "\<exists>xs. domains (b_model b) = domains m2 @ xs"
    and "db = Some d \<Longrightarrow> dict_has (b_level_vars b) n \<longleftrightarrow> n \<in> name ` set ns"
    by blast+
qed

lemma non_self_indices:
  "map fst (filter (\<lambda>(j, c). P c) (enumerate 0 cs)) = filter (\<lambda>j. P (cs ! j)) [0..<length cs]"
proof (induction cs rule: rev_induct)
  case Nil
  then show ?case by simp
next
  case (snoc c cs)
  have "filter (\<lambda>j. P ((cs @ [c]) ! j)) [0..<length cs] = filter (\<lambda>j. P (cs ! j)) [0..<length cs]"
    by (rule filter_cong[OF refl]) (simp add: nth_append)
  with snoc.IH show ?case
    by (simp add: enumerate_append_eq)
qed

lemma node_entries_indices:
  "node_entries nd infos \<Longrightarrow>
     map cut_index infos = filter (\<lambda>j. leaves (cuts nd ! j) \<noteq> [name nd]) [0..<length (cuts nd)]"
  using non_self_indices[of "\<lambda>c. leaves c \<noteq> [name nd]" "cuts nd"]
  by (simp add: node_entries_def)

lemma built_domains:
  assumes "b = build_model data db fd"
  shows "\<exists>j xs. domains (b_model b) = replicate (length (nodes data) + j) (0, 1) @ xs
           \<and> (\<forall>n \<in> name ` set (nodes data).
                  \<exists>u. map_of (b_var_node_used b) n = Some u \<and> u < length (nodes data))
           \<and> (\<forall>n nd. map_of (node_map (nodes data)) n = Some nd \<longrightarrow>
                  (\<exists>infos. map_of (b_var_cut b) n = Some infos \<and> node_entries nd infos
                     \<and> (\<forall>ci \<in> set infos. var ci < length (nodes data) + j)))"
proof -
  note f = build_model_facts[OF assms]
  let ?m1 = "fst (new_node_vars 0 1 (nodes data) CpModel [])"
  let ?m2 = "fst (new_cut_vars (nodes data) ?m1 0 [])"
  from f(2) obtain k where c: "new_cut_vars (nodes data) ?m1 0 [] = (?m2, k, b_var_cut b)"
    by blast
  from f(4) obtain xs where xs: "domains (b_model b) = domains ?m2 @ xs" by blast
  from new_node_vars_model[OF f(1)]
  have d1: "domains ?m1 = replicate (length (nodes data)) (0, 1)" by (simp add: CpModel_def)
  from new_cut_vars_entries(2)[OF c] obtain j where
    d2: "domains ?m2 = domains ?m1 @ replicate j (0, 1)" by blast
  have dm: "domains (b_model b) = replicate (length (nodes data) + j) (0, 1) @ xs"
    using xs d1 d2 by (simp add: replicate_add)
  have u: "\<forall>n \<in> name ` set (nodes data).
                  \<exists>u. map_of (b_var_node_used b) n = Some u \<and> u < length (nodes data)"
  proof
    fix n assume "n \<in> name ` set (nodes data)"
    with new_node_vars_dict[OF f(1), of n]
    show "\<exists>u. map_of (b_var_node_used b) n = Some u \<and> u < length (nodes data)"
      by (auto simp: CpModel_def)
  qed
  have v: "\<exists>infos. map_of (b_var_cut b) n = Some infos \<and> node_entries nd infos
                     \<and> (\<forall>ci \<in> set infos. var ci < length (nodes data) + j)"
    if "map_of (node_map (nodes data)) n = Some nd" for n nd
  proof -
    from new_cut_vars_entries(3)[OF c that] obtain infos where i:
      "map_of (b_var_cut b) n = Some infos" "node_entries nd infos"
      "\<forall>ci \<in> set infos. length (domains ?m1) \<le> var ci \<and> var ci < length (domains ?m2)"
      by blast
    from i(3) d1 d2 have "\<forall>ci \<in> set infos. var ci < length (nodes data) + j" by simp
    with i(1,2) show ?thesis by blast
  qed
  from dm u v show ?thesis by blast
qed

lemma built_used_var:
  assumes "b = build_model data db fd" and "n \<in> name ` set (nodes data)"
  shows "\<exists>u. map_of (b_var_node_used b) n = Some u \<and> u < length (domains (b_model b))
           \<and> domains (b_model b) ! u = (0, 1)"
proof -
  from built_domains[OF assms(1)] assms(2) obtain j xs u where
    "domains (b_model b) = replicate (length (nodes data) + j) (0, 1) @ xs"
    "map_of (b_var_node_used b) n = Some u" "u < length (nodes data)"
    by blast
  then show ?thesis by (auto simp: nth_append)
qed


lemma built_cut_vars:
  assumes "b = build_model data db fd" and "map_of (node_map (nodes data)) n = Some nd"
  shows "\<exists>infos. map_of (b_var_cut b) n = Some infos \<and> node_entries nd infos
           \<and> (\<forall>ci \<in> set infos. var ci < length (domains (b_model b))
                  \<and> domains (b_model b) ! var ci = (0, 1))"
proof -
  from built_domains[OF assms(1)] assms(2) obtain j xs infos where
    d: "domains (b_model b) = replicate (length (nodes data) + j) (0, 1) @ xs"
    and i: "map_of (b_var_cut b) n = Some infos" "node_entries nd infos"
      "\<forall>ci \<in> set infos. var ci < length (nodes data) + j"
    by blast
  from d i(3) have "\<forall>ci \<in> set infos. var ci < length (domains (b_model b))
                  \<and> domains (b_model b) ! var ci = (0, 1)"
    by (auto simp: nth_append)
  with i(1,2) show ?thesis by blast
qed

lemma built_constraints:
  assumes "b = build_model data db fd" and "nd \<in> set (nodes data)"
  shows "constraint_A (b_var_node_used b) (b_var_cut b) (name nd) \<in> set (constraints (b_model b))"
    and "\<exists>f. set (constraints_B (b_var_node_used b) (b_var_cut b) (name ` set (nodes data)) f (name nd))
           \<subseteq> set (constraints (b_model b))"
    and "db = Some d \<Longrightarrow>
           set (level_constraints_node (b_var_node_used b) (b_var_cut b) (b_level_vars b)
                  (case inputs data of None \<Rightarrow> [] | Some is \<Rightarrow> is)
                  (max 1 (if d \<noteq> 0 then d else len_or_1 (nodes data))) (name nd))
           \<subseteq> set (constraints (b_model b))"
proof -
  let ?m2 = "fst (new_cut_vars (nodes data) (fst (new_node_vars 0 1 (nodes data) CpModel [])) 0 [])"
  from build_model_facts(3)[OF assms(1)] obtain C where s:
    "constraints (b_model b) =
       map (\<lambda>nd. constraint_A (b_var_node_used b) (b_var_cut b) (name nd)) (nodes data)
       @ concat (map (\<lambda>nd. constraints_B (b_var_node_used b) (b_var_cut b)
                        (set (map name (nodes data))) (length (domains ?m2)) (name nd)) (nodes data))
       @ C @ root_constraints (b_var_node_used b)
               (case outputs data of None \<Rightarrow> [] | Some os \<Rightarrow> os) (nodes data)"
    and lv: "\<forall>d. db = Some d \<longrightarrow>
       (\<exists>pre post. C = pre @ concat (map (\<lambda>nd. level_constraints_node (b_var_node_used b)
            (b_var_cut b) (b_level_vars b) (case inputs data of None \<Rightarrow> [] | Some is \<Rightarrow> is)
            (max 1 (if d \<noteq> 0 then d else len_or_1 (nodes data)))
            (name nd)) (nodes data)) @ post)"
    by blast
  show "constraint_A (b_var_node_used b) (b_var_cut b) (name nd) \<in> set (constraints (b_model b))"
    using assms(2) by (simp add: s)
  have "set (constraints_B (b_var_node_used b) (b_var_cut b) (name ` set (nodes data))
               (length (domains ?m2)) (name nd)) \<subseteq> set (constraints (b_model b))"
    using assms(2) by (auto simp: s)
  then show "\<exists>f. set (constraints_B (b_var_node_used b) (b_var_cut b) (name ` set (nodes data)) f (name nd))
           \<subseteq> set (constraints (b_model b))" by blast
  show "set (level_constraints_node (b_var_node_used b) (b_var_cut b) (b_level_vars b)
                  (case inputs data of None \<Rightarrow> [] | Some is \<Rightarrow> is)
                  (max 1 (if d \<noteq> 0 then d else len_or_1 (nodes data))) (name nd))
           \<subseteq> set (constraints (b_model b))" if "db = Some d"
  proof -
    from lv that obtain pre post where
      "C = pre @ concat (map (\<lambda>nd. level_constraints_node (b_var_node_used b)
            (b_var_cut b) (b_level_vars b) (case inputs data of None \<Rightarrow> [] | Some is \<Rightarrow> is)
            (max 1 (if d \<noteq> 0 then d else len_or_1 (nodes data)))
            (name nd)) (nodes data)) @ post" by blast
    with assms(2) show ?thesis by (auto simp: s)
  qed
qed


subsection \<open>Solutions and extraction\<close>

lemma feasible_holds: "feasible m a \<Longrightarrow> c \<in> set (constraints m) \<Longrightarrow> holds a c"
  by (simp add: feasible_def list_all_iff)

lemma feasible_bool:
  "feasible m a \<Longrightarrow> v < length (domains m) \<Longrightarrow> domains m ! v = (0, 1) \<Longrightarrow> a v = 0 \<or> a v = 1"
  using bool_value[of "domains m" a v] by (simp add: feasible_def)

lemma sum_bool_count:
  "\<forall>x \<in> set xs. f x = 0 \<or> f x = (1::int) \<Longrightarrow>
     sum_list (map f xs) = int (length (filter (\<lambda>x. f x = 1) xs))"
  by (induction xs) auto

lemma first_chosen_Some:
  "first_chosen a infos = Some i \<Longrightarrow> \<exists>ci \<in> set infos. cut_index ci = i \<and> a (var ci) = 1"
  by (induction infos) (auto split: if_splits)

lemma first_chosen_None:
  "first_chosen a infos = None \<longleftrightarrow> (\<forall>ci \<in> set infos. a (var ci) \<noteq> 1)"
  by (induction infos) auto

lemma extract_fold:
  "map_of (fold (\<lambda>nd chosen_cuts.
             (let nname = name nd
              in if a (dict_get used nname) = 1
                 then (case first_chosen a (dict_get vc nname) of
                         None \<Rightarrow> chosen_cuts
                       | Some i \<Rightarrow> AList.update nname i chosen_cuts)
                 else chosen_cuts)) nds acc) n
   = (if n \<in> name ` set nds \<and> a (dict_get used n) = 1 \<and> first_chosen a (dict_get vc n) \<noteq> None
      then first_chosen a (dict_get vc n) else map_of acc n)"
  by (induction nds arbitrary: acc) (auto simp: Let_def update_conv' split: option.splits)

lemma extract_map_of:
  "map_of (extract_chosen_cuts nds used vc a) n
   = (if n \<in> name ` set nds \<and> a (dict_get used n) = 1 then first_chosen a (dict_get vc n)
      else None)"
  unfolding extract_chosen_cuts_def extract_fold by auto

lemma extracted_cut_facts:
  assumes "b = build_model data db fd"
    and "map_of (extract_chosen_cuts (nodes data) (b_var_node_used b) (b_var_cut b) a) n = Some i"
  shows "\<exists>nd. map_of (node_map (nodes data)) n = Some nd \<and> name nd = n \<and> nd \<in> set (nodes data)
           \<and> a (dict_get (b_var_node_used b) n) = 1
           \<and> i < length (cuts nd) \<and> leaves (cuts nd ! i) \<noteq> [n]
           \<and> (\<exists>ci \<in> set (dict_get (b_var_cut b) n).
                 cut_index ci = i \<and> a (var ci) = 1 \<and> ci_leaves ci = leaves (cuts nd ! i))
           \<and> map cut_index (dict_get (b_var_cut b) n)
               = filter (\<lambda>j. leaves (cuts nd ! j) \<noteq> [n]) [0..<length (cuts nd)]"
proof -
  from assms(2) have n: "n \<in> name ` set (nodes data)"
    and u: "a (dict_get (b_var_node_used b) n) = 1"
    and fc: "first_chosen a (dict_get (b_var_cut b) n) = Some i"
    by (auto simp: extract_map_of split: if_splits)
  from n obtain nd where nd: "map_of (node_map (nodes data)) n = Some nd"
    using node_map_keys[of "nodes data" n] by auto
  from node_map_Some[OF nd] have nm: "name nd = n" "nd \<in> set (nodes data)" by auto
  from built_cut_vars[OF assms(1) nd] obtain infos where
    infos: "map_of (b_var_cut b) n = Some infos" "node_entries nd infos" by blast
  then have dg: "dict_get (b_var_cut b) n = infos" by (simp add: dict_get_def)
  from first_chosen_Some[OF fc] dg obtain ci where
    ci: "ci \<in> set infos" "cut_index ci = i" "a (var ci) = 1" by auto
  from infos(2) ci(1) have e: "cut_entry (cuts nd) ci" "ci_leaves ci \<noteq> [name nd]"
    by (auto simp: node_entries_def)
  from e ci(2) nm(1) have "i < length (cuts nd)" "ci_leaves ci = leaves (cuts nd ! i)"
    "leaves (cuts nd ! i) \<noteq> [n]"
    by (auto simp: cut_entry_def)
  with nd nm u ci dg node_entries_indices[OF infos(2)] show ?thesis
    by auto
qed

lemma used_iff_one_cut:
  assumes b: "b = build_model data db fd" and f: "feasible (b_model b) a"
    and nd: "map_of (node_map (nodes data)) n = Some nd"
  shows "(a (dict_get (b_var_node_used b) n) = 1 \<longleftrightarrow>
            length (filter (\<lambda>ci. a (var ci) = 1) (dict_get (b_var_cut b) n)) = 1)"
    and "a (dict_get (b_var_node_used b) n) = 0 \<or> a (dict_get (b_var_node_used b) n) = 1"
    and "(\<forall>c \<in> set (cuts nd). leaves c = [n]) \<longrightarrow> a (dict_get (b_var_node_used b) n) = 0"
proof -
  from node_map_Some[OF nd] have nm: "name nd = n" "nd \<in> set (nodes data)" by auto
  then have n: "n \<in> name ` set (nodes data)" by auto
  from built_used_var[OF b n] obtain u where u: "map_of (b_var_node_used b) n = Some u"
    "u < length (domains (b_model b))" "domains (b_model b) ! u = (0, 1)" by blast
  then have du: "dict_get (b_var_node_used b) n = u" by (simp add: dict_get_def)
  from feasible_bool[OF f u(2,3)] have ub: "a u = 0 \<or> a u = 1" .
  from built_cut_vars[OF b nd] obtain infos where
    infos: "map_of (b_var_cut b) n = Some infos" "node_entries nd infos"
    "\<forall>ci \<in> set infos. var ci < length (domains (b_model b))
                  \<and> domains (b_model b) ! var ci = (0, 1)" by blast
  then have dg: "dict_get (b_var_cut b) n = infos" by (simp add: dict_get_def)
  have cb: "\<forall>ci \<in> set infos. a (var ci) = 0 \<or> a (var ci) = 1"
  proof
    fix ci assume "ci \<in> set infos"
    with infos(3) have "var ci < length (domains (b_model b))"
      "domains (b_model b) ! var ci = (0, 1)" by auto
    from feasible_bool[OF f this] show "a (var ci) = 0 \<or> a (var ci) = 1" .
  qed
  have A: "holds a (constraint_A (b_var_node_used b) (b_var_cut b) n)"
    using feasible_holds[OF f built_constraints(1)[OF b nm(2)]] nm(1) by simp
  have cnt: "a u = int (length (filter (\<lambda>ci. a (var ci) = 1) infos))"
  proof (cases "infos = []")
    case True
    with A du dg show ?thesis by (simp add: constraint_A_def)
  next
    case False
    with A du dg have "sum_list (map (\<lambda>ci. a (var ci)) infos) = a u"
      by (simp add: constraint_A_def comp_def)
    with sum_bool_count[OF cb] show ?thesis by simp
  qed
  show "(a (dict_get (b_var_node_used b) n) = 1 \<longleftrightarrow>
            length (filter (\<lambda>ci. a (var ci) = 1) (dict_get (b_var_cut b) n)) = 1)"
    using cnt du dg by auto
  show "a (dict_get (b_var_node_used b) n) = 0 \<or> a (dict_get (b_var_node_used b) n) = 1"
    using ub du by simp
  show "(\<forall>c \<in> set (cuts nd). leaves c = [n]) \<longrightarrow> a (dict_get (b_var_node_used b) n) = 0"
  proof
    assume all: "\<forall>c \<in> set (cuts nd). leaves c = [n]"
    have "filter (\<lambda>j. leaves (cuts nd ! j) \<noteq> [name nd]) [0..<length (cuts nd)] = []"
      using all nm(1) by (auto simp: filter_empty_conv)
    with node_entries_indices[OF infos(2)] have "infos = []" by simp
    with cnt du show "a (dict_get (b_var_node_used b) n) = 0" by simp
  qed
qed

lemma chosen_present:
  assumes b: "b = build_model data db fd" and f: "feasible (b_model b) a"
    and n: "n \<in> name ` set (nodes data)" and u: "a (dict_get (b_var_node_used b) n) = 1"
  shows "map_of (extract_chosen_cuts (nodes data) (b_var_node_used b) (b_var_cut b) a) n \<noteq> None"
proof -
  from n obtain nd where nd: "map_of (node_map (nodes data)) n = Some nd"
    using node_map_keys[of "nodes data" n] by auto
  from used_iff_one_cut(1)[OF b f nd] u
  have "length (filter (\<lambda>ci. a (var ci) = 1) (dict_get (b_var_cut b) n)) = 1" by simp
  then have "filter (\<lambda>ci. a (var ci) = 1) (dict_get (b_var_cut b) n) \<noteq> []" by auto
  then have "first_chosen a (dict_get (b_var_cut b) n) \<noteq> None"
    by (auto simp: first_chosen_None filter_empty_conv)
  with n u show ?thesis by (simp add: extract_map_of)
qed




subsection \<open>The cut selection of a solution\<close>

text \<open>
  C1. Whatever the values of the variables are, an entry \<open>n \<mapsto> i\<close> of the extracted
  \<^verbatim>\<open>chosen_cuts\<close> is for a node \<open>n\<close> of the catalog (the one \<^verbatim>\<open>node_map\<close> holds for
  the name) whose \<^verbatim>\<open>used\<close> variable is 1; \<open>i\<close> is a position in the node's \<^verbatim>\<open>cuts\<close>
  array, the cut at that position is not a self-cut, and it is the cut of a variable of
  the node whose value is 1. The variables of the node are, in order, the positions of
  its cuts that are not self-cuts: a self-cut gets no variable, and leaving it out does
  not shift the index of the cuts after it.
\<close>

theorem chosen_index_is_original:
  assumes "b = build_model data db fd"
    and "map_of (extract_chosen_cuts (nodes data) (b_var_node_used b) (b_var_cut b) a) n = Some i"
  shows "\<exists>nd. map_of (node_map (nodes data)) n = Some nd \<and> name nd = n \<and> nd \<in> set (nodes data)
           \<and> a (dict_get (b_var_node_used b) n) = 1
           \<and> i < length (cuts nd) \<and> leaves (cuts nd ! i) \<noteq> [n]
           \<and> (\<exists>ci \<in> set (dict_get (b_var_cut b) n).
                 cut_index ci = i \<and> a (var ci) = 1 \<and> ci_leaves ci = leaves (cuts nd ! i))
           \<and> map cut_index (dict_get (b_var_cut b) n)
               = filter (\<lambda>j. leaves (cuts nd ! j) \<noteq> [n]) [0..<length (cuts nd)]"
  using extracted_cut_facts[OF assms] .

text \<open>
  C1 on the chain: the first cut of \<open>a\<close> is a self-cut, and the cut recorded for \<open>a\<close> is
  its second cut, index 1.
\<close>

theorem chosen_index_is_original_witness:
  "map_of (extract_chosen_cuts (nodes chain_example)
             (b_var_node_used (build_model chain_example None None))
             (b_var_cut (build_model chain_example None None)) all_ones) ''a'' = Some 1
   \<and> (\<exists>nd. map_of (node_map (nodes chain_example)) ''a'' = Some nd
          \<and> 1 < length (cuts nd) \<and> leaves (cuts nd ! 1) \<noteq> [''a'']
          \<and> map cut_index (dict_get (b_var_cut (build_model chain_example None None)) ''a'')
               = filter (\<lambda>j. leaves (cuts nd ! j) \<noteq> [''a'']) [0..<length (cuts nd)])"
proof
  show h: "map_of (extract_chosen_cuts (nodes chain_example)
             (b_var_node_used (build_model chain_example None None))
             (b_var_cut (build_model chain_example None None)) all_ones) ''a'' = Some 1"
    by code_simp
  from chosen_index_is_original[OF refl h]
  show "\<exists>nd. map_of (node_map (nodes chain_example)) ''a'' = Some nd
          \<and> 1 < length (cuts nd) \<and> leaves (cuts nd ! 1) \<noteq> [''a'']
          \<and> map cut_index (dict_get (b_var_cut (build_model chain_example None None)) ''a'')
               = filter (\<lambda>j. leaves (cuts nd ! j) \<noteq> [''a'']) [0..<length (cuts nd)]"
    by blast
qed

text \<open>
  C2. In every solution of a built model, for every node \<open>n\<close> of the catalog: the
  \<^verbatim>\<open>used\<close> variable is 0 or 1, and it is 1 iff exactly one of the node's cut variables
  (there is one per cut that is not a self-cut) is 1; a node whose cuts are all self-cuts
  is not used; and if \<open>n \<mapsto> i\<close> is in the extracted \<^verbatim>\<open>chosen_cuts\<close>, every leaf of
  the cut at position \<open>i\<close> that names a node of the catalog is a key of \<^verbatim>\<open>chosen_cuts\<close>.
\<close>

theorem used_iff_one_cut_and_leaves_chosen:
  assumes "b = build_model data db fd" and "feasible (b_model b) a"
    and "map_of (node_map (nodes data)) n = Some nd"
  shows "(a (dict_get (b_var_node_used b) n) = 1 \<longleftrightarrow>
            length (filter (\<lambda>ci. a (var ci) = 1) (dict_get (b_var_cut b) n)) = 1)
       \<and> (a (dict_get (b_var_node_used b) n) = 0 \<or> a (dict_get (b_var_node_used b) n) = 1)
       \<and> ((\<forall>c \<in> set (cuts nd). leaves c = [n]) \<longrightarrow> a (dict_get (b_var_node_used b) n) = 0)
       \<and> (\<forall>i. map_of (extract_chosen_cuts (nodes data) (b_var_node_used b) (b_var_cut b) a) n
                 = Some i \<longrightarrow>
              (\<forall>leaf \<in> set (leaves (cuts nd ! i)).
                 leaf \<in> name ` set (nodes data) \<longrightarrow>
                 map_of (extract_chosen_cuts (nodes data) (b_var_node_used b) (b_var_cut b) a)
                   leaf \<noteq> None))"
proof (intro conjI allI impI ballI)
  show "(a (dict_get (b_var_node_used b) n) = 1 \<longleftrightarrow>
            length (filter (\<lambda>ci. a (var ci) = 1) (dict_get (b_var_cut b) n)) = 1)"
    by (rule used_iff_one_cut(1)[OF assms])
  show "a (dict_get (b_var_node_used b) n) = 0 \<or> a (dict_get (b_var_node_used b) n) = 1"
    by (rule used_iff_one_cut(2)[OF assms])
  show "a (dict_get (b_var_node_used b) n) = 0" if "\<forall>c \<in> set (cuts nd). leaves c = [n]"
    using used_iff_one_cut(3)[OF assms] that by blast
next
  fix i leaf
  assume ch: "map_of (extract_chosen_cuts (nodes data) (b_var_node_used b) (b_var_cut b) a) n
                 = Some i"
    and leaf: "leaf \<in> set (leaves (cuts nd ! i))" "leaf \<in> name ` set (nodes data)"
  from extracted_cut_facts[OF assms(1) ch] assms(3) obtain ci where
    ci: "ci \<in> set (dict_get (b_var_cut b) n)" "a (var ci) = 1"
    "ci_leaves ci = leaves (cuts nd ! i)"
    by auto
  from node_map_Some[OF assms(3)] have nm: "name nd = n" "nd \<in> set (nodes data)" by auto
  from built_constraints(2)[OF assms(1) nm(2)] obtain f1 where
    B: "set (constraints_B (b_var_node_used b) (b_var_cut b) (name ` set (nodes data)) f1 n)
           \<subseteq> set (constraints (b_model b))"
    using nm(1) by auto
  have "CImp (var ci) (dict_get (b_var_node_used b) leaf)
          \<in> set (constraints_B (b_var_node_used b) (b_var_cut b) (name ` set (nodes data)) f1 n)"
    unfolding constraints_B_def using ci(1,3) leaf by force
  with B feasible_holds[OF assms(2)]
  have "holds a (CImp (var ci) (dict_get (b_var_node_used b) leaf))" by blast
  with ci(2) have "a (dict_get (b_var_node_used b) leaf) = 1" by simp
  from chosen_present[OF assms(1,2) leaf(2) this]
  show "map_of (extract_chosen_cuts (nodes data) (b_var_node_used b) (b_var_cut b) a)
                   leaf \<noteq> None" .
qed

text \<open>C2 on the chain, with every variable 1: \<open>b\<close> is used with its one cut, whose leaf \<open>a\<close> is chosen too.\<close>

theorem used_iff_one_cut_and_leaves_chosen_witness:
  "feasible (b_model (build_model chain_example None None)) all_ones
   \<and> map_of (node_map (nodes chain_example)) ''b'' = Some (chain_nodes ! 1)
   \<and> map_of (extract_chosen_cuts (nodes chain_example)
               (b_var_node_used (build_model chain_example None None))
               (b_var_cut (build_model chain_example None None)) all_ones) ''b'' = Some 0
   \<and> (all_ones (dict_get (b_var_node_used (build_model chain_example None None)) ''b'') = 1 \<longleftrightarrow>
        length (filter (\<lambda>ci. all_ones (var ci) = 1)
                  (dict_get (b_var_cut (build_model chain_example None None)) ''b'')) = 1)
   \<and> map_of (extract_chosen_cuts (nodes chain_example)
               (b_var_node_used (build_model chain_example None None))
               (b_var_cut (build_model chain_example None None)) all_ones) ''a'' \<noteq> None"
proof -
  have f: "feasible (b_model (build_model chain_example None None)) all_ones"
    by code_simp
  have nd: "map_of (node_map (nodes chain_example)) ''b'' = Some (chain_nodes ! 1)"
    by code_simp
  have ch: "map_of (extract_chosen_cuts (nodes chain_example)
               (b_var_node_used (build_model chain_example None None))
               (b_var_cut (build_model chain_example None None)) all_ones) ''b'' = Some 0"
    by code_simp
  have leaf: "''a'' \<in> set (leaves (cuts (chain_nodes ! 1) ! 0))"
    "''a'' \<in> name ` set (nodes chain_example)"
    by (simp_all add: chain_nodes_def chain_example_def)
  note t = used_iff_one_cut_and_leaves_chosen[OF refl f nd]
  from t have 1: "all_ones (dict_get (b_var_node_used (build_model chain_example None None)) ''b'') = 1 \<longleftrightarrow>
        length (filter (\<lambda>ci. all_ones (var ci) = 1)
                  (dict_get (b_var_cut (build_model chain_example None None)) ''b'')) = 1"
    by blast
  from t ch leaf have 2: "map_of (extract_chosen_cuts (nodes chain_example)
               (b_var_node_used (build_model chain_example None None))
               (b_var_cut (build_model chain_example None None)) all_ones) ''a'' \<noteq> None"
    by blast
  from f nd ch 1 2 show ?thesis by blast
qed





end
